theory Spec2Isabelle
  imports Complex_Main
begin

section \<open>Lane detection: steering angle, command channel and control loop\<close>

text \<open>
  The development follows \<^verbatim>\<open>main.py\<close>. The image pipeline (colour filter, blur,
  Otsu threshold, Canny, region of interest, \<^verbatim>\<open>cv2.HoughLinesP\<close>) is OpenCV code; its
  result, the detected segments of a frame, is an input of the model. The angle is
  modelled twice: \<open>calculate_angle\<close> reads NumPy's float64 values as real numbers and
  \<^verbatim>\<open>np.arctan2\<close>, \<^verbatim>\<open>np.degrees\<close> as the mathematical functions they approximate;
  \<open>calculate_angle_fl\<close> rounds after every arithmetic operation, as float64 does.
\<close>

subsection \<open>Line segments and the mean orientation\<close>

text \<open>
  A row \<^verbatim>\<open>line[0]\<close> of the detector's result: \<^verbatim>\<open>x1, y1, x2, y2\<close>, pixel
  coordinates inside the frame, so that their differences are far from the bounds of the
  array's 32-bit integers.
\<close>

type_synonym segment = "int \<times> int \<times> int \<times> int"

text \<open>\<^verbatim>\<open>np.arctan2(y, x)\<close>: the angle of the point \<open>(x, y)\<close>, in \<open>(-pi, pi]\<close>.\<close>

definition arctan2 :: "real \<Rightarrow> real \<Rightarrow> real" where
  "arctan2 y x =
     (if 0 < x then arctan (y / x)
      else if x < 0 then (if 0 \<le> y then arctan (y / x) + pi else arctan (y / x) - pi)
      else if 0 < y then pi / 2
      else if y < 0 then - (pi / 2)
      else 0)"

text \<open>\<^verbatim>\<open>np.degrees\<close>.\<close>

definition degrees :: "real \<Rightarrow> real" where
  "degrees r = r * 180 / pi"

text \<open>
  The body of \<^verbatim>\<open>for line in lines: angle_sum += np.arctan2(y2 - y1, x2 - x1)\<close>, with
  the running \<^verbatim>\<open>angle_sum\<close> as accumulator.
\<close>

fun angle_sum_loop :: "segment list \<Rightarrow> real \<Rightarrow> real" where
  "angle_sum_loop [] angle_sum = angle_sum"
| "angle_sum_loop ((x1, y1, x2, y2) # lines) angle_sum =
     angle_sum_loop lines (angle_sum + arctan2 (of_int (y2 - y1)) (of_int (x2 - x1)))"

text \<open>
  \<^verbatim>\<open>calculate_angle(lines)\<close>. \<^verbatim>\<open>HoughLinesP\<close> gives \<^verbatim>\<open>None\<close> when it finds nothing,
  otherwise an array of rows.
\<close>

definition calculate_angle :: "segment list option \<Rightarrow> real" where
  "calculate_angle lines =
     (case lines of
        None \<Rightarrow> 0
      | Some ls \<Rightarrow>
          if length ls = 0 then 0
          else
            let angle_sum = angle_sum_loop ls 0;
                angle_avg = angle_sum / real (length ls);
                angle_deg = degrees angle_avg
            in angle_deg)"

text \<open>
  The specification's wording of the same quantity: the arithmetic mean of the
  orientations of the segments, each the arctangent of \<open>(\<Delta>y, \<Delta>x)\<close>, in degrees.
\<close>

definition orientation :: "segment \<Rightarrow> real" where
  "orientation sg = (case sg of (x1, y1, x2, y2) \<Rightarrow> arctan2 (of_int (y2 - y1)) (of_int (x2 - x1)))"

definition spec_mean_degrees :: "segment list \<Rightarrow> real" where
  "spec_mean_degrees ls = degrees (sum_list (map orientation ls) / real (length ls))"

subsection \<open>The same computation in float64\<close>

text \<open>
  Rounding of a real number to the nearest float64, ties to the even significand: 53
  significant bits. The exponent range is not modelled; the values that occur here are
  far from overflow and underflow. The sum, the quotient and the product of float64
  values are the exact results rounded this way.
\<close>

definition round_even :: "real \<Rightarrow> int" where
  "round_even m =
     (let f = \<lfloor>m\<rfloor>; d = m - of_int f
      in if d < 1 / 2 then f else if 1 / 2 < d then f + 1 else if even f then f else f + 1)"

definition fl :: "real \<Rightarrow> real" where
  "fl x =
     (if x = 0 then 0
      else
        let q = 2 powr (of_int \<lfloor>log 2 \<bar>x\<bar>\<rfloor> - 52)
        in of_int (round_even (x / q)) * q)"

definition unit_roundoff :: real where
  "unit_roundoff = 1 / 2 ^ 53"

text \<open>
  \<^verbatim>\<open>np.degrees\<close> multiplies by the float64 constant \<^verbatim>\<open>180.0 / NPY_PI\<close>, where
  \<^verbatim>\<open>NPY_PI\<close> is \<open>pi\<close> rounded.
\<close>

definition deg_per_rad :: real where
  "deg_per_rad = fl (180 / fl pi)"

definition degrees_fl :: "real \<Rightarrow> real" where
  "degrees_fl r = fl (r * deg_per_rad)"

text \<open>
  The loop and \<^verbatim>\<open>calculate_angle\<close> with the rounding written out. The library's
  \<^verbatim>\<open>arctan2\<close> is not correctly rounded in general, so it is a parameter
  \<open>atan2_lib\<close>; what is used of it is the range of its results.
\<close>

fun angle_sum_loop_fl :: "(real \<Rightarrow> real \<Rightarrow> real) \<Rightarrow> segment list \<Rightarrow> real \<Rightarrow> real" where
  "angle_sum_loop_fl atan2_lib [] angle_sum = angle_sum"
| "angle_sum_loop_fl atan2_lib ((x1, y1, x2, y2) # lines) angle_sum =
     angle_sum_loop_fl atan2_lib lines
       (fl (angle_sum + atan2_lib (of_int (y2 - y1)) (of_int (x2 - x1))))"

definition calculate_angle_fl :: "(real \<Rightarrow> real \<Rightarrow> real) \<Rightarrow> segment list option \<Rightarrow> real" where
  "calculate_angle_fl atan2_lib lines =
     (case lines of
        None \<Rightarrow> 0
      | Some ls \<Rightarrow>
          if length ls = 0 then 0
          else
            let angle_sum = angle_sum_loop_fl atan2_lib ls 0;
                angle_avg = fl (angle_sum / real (length ls));
                angle_deg = degrees_fl angle_avg
            in angle_deg)"

text \<open>
  The range of the library function: no result beyond \<open>pi\<close> in magnitude, and none
  beyond \<open>pi / 2\<close> for a point of the right half plane. The float64 nearest to \<open>pi\<close>
  lies below \<open>pi\<close>, so the C library's \<^verbatim>\<open>atan2\<close> is in this range.
\<close>

definition atan2_range :: "(real \<Rightarrow> real \<Rightarrow> real) \<Rightarrow> bool" where
  "atan2_range atan2_lib =
     (\<forall>y x. \<bar>atan2_lib y x\<bar> \<le> pi \<and> (0 \<le> x \<longrightarrow> \<bar>atan2_lib y x\<bar> \<le> pi / 2))"

text \<open>
  The number of segments of a detector result, and whether each segment runs from left
  to right (\<^verbatim>\<open>x1 <= x2\<close>).
\<close>

definition segment_count :: "segment list option \<Rightarrow> nat" where
  "segment_count lines = (case lines of None \<Rightarrow> 0 | Some ls \<Rightarrow> length ls)"

definition left_to_right :: "segment list option \<Rightarrow> bool" where
  "left_to_right lines =
     (case lines of None \<Rightarrow> True | Some ls \<Rightarrow> list_all (\<lambda>(x1, y1, x2, y2). x1 \<le> x2) ls)"

subsection \<open>Integer conversion and decimal text\<close>

text \<open>Python's \<^verbatim>\<open>int(x)\<close> on a float: the fractional part is discarded.\<close>

definition py_int :: "real \<Rightarrow> int" where
  "py_int x = (if x < 0 then \<lceil>x\<rceil> else \<lfloor>x\<rfloor>)"

definition digit_char :: "nat \<Rightarrow> char" where
  "digit_char d = char_of (48 + d)"

text \<open>The decimal digits of a natural number, most significant first.\<close>

function str_nat :: "nat \<Rightarrow> string" where
  "str_nat n = (if n < 10 then [digit_char n] else str_nat (n div 10) @ [digit_char (n mod 10)])"
  by pat_completeness auto
termination
  by (relation "measure (\<lambda>n. n)") auto

declare str_nat.simps [simp del]

text \<open>What the format field \<^verbatim>\<open>{int(angle)}\<close> of the f-string produces.\<close>

definition str_int :: "int \<Rightarrow> string" where
  "str_int i = (if i < 0 then CHR ''-'' # str_nat (nat (- i)) else str_nat (nat i))"

text \<open>Reading decimal text back, as the receiver of a frame does.\<close>

definition digit_val :: "char \<Rightarrow> nat" where
  "digit_val c = of_char c - 48"

definition read_nat :: "string \<Rightarrow> nat" where
  "read_nat cs = foldl (\<lambda>acc c. 10 * acc + digit_val c) 0 cs"

definition read_int :: "string \<Rightarrow> int" where
  "read_int cs = (case cs of
       [] \<Rightarrow> 0
     | c # rest \<Rightarrow> if c = CHR ''-'' then - int (read_nat rest) else int (read_nat cs))"

subsection \<open>Shared state, command channel and resources\<close>

text \<open>
  The module's globals \<^verbatim>\<open>key_input_flag\<close>, \<^verbatim>\<open>command\<close>, \<^verbatim>\<open>paused\<close>; the serial port
  \<^verbatim>\<open>ser\<close> as the sequence of its \<^verbatim>\<open>write\<close> calls (one entry per call, oldest first);
  whether the listener thread is still inside its loop; and counters for the release
  calls on the camera and the port.
\<close>

record state =
  key_input_flag :: bool
  command :: string
  paused :: bool
  channel :: "string list"
  listening :: bool
  picam2_stops :: nat
  picam2_closes :: nat
  ser_closes :: nat

text \<open>The globals as initialised, the port open, the camera started, the thread started.\<close>

definition initial_state :: state where
  "initial_state =
     \<lparr>key_input_flag = False, command = [], paused = False, channel = [],
      listening = True, picam2_stops = 0, picam2_closes = 0, ser_closes = 0\<rparr>"

text \<open>\<^verbatim>\<open>ser.write(data)\<close>.\<close>

definition ser_write :: "string \<Rightarrow> state \<Rightarrow> state" where
  "ser_write bytes s = s\<lparr>channel := channel s @ [bytes]\<rparr>"

text \<open>\<^verbatim>\<open>send_angle_to_arduino(angle)\<close>: \<^verbatim>\<open>ser.write(f"A{int(angle)}\n".encode())\<close>.\<close>

definition send_angle_to_arduino :: "real \<Rightarrow> state \<Rightarrow> state" where
  "send_angle_to_arduino angle s = ser_write (CHR ''A'' # str_int (py_int angle) @ [CHR 0x0A]) s"

text \<open>\<^verbatim>\<open>send_pause_resume_to_arduino()\<close>: \<^verbatim>\<open>ser.write(b'p')\<close>.\<close>

definition send_pause_resume_to_arduino :: "state \<Rightarrow> state" where
  "send_pause_resume_to_arduino s = ser_write ''p'' s"

text \<open>A write that begins with the letter \<open>A\<close>: an angle frame.\<close>

definition angle_frame :: "string \<Rightarrow> bool" where
  "angle_frame w = (case w of [] \<Rightarrow> False | c # _ \<Rightarrow> c = CHR ''A'')"

subsection \<open>The input listener\<close>

text \<open>
  \<^verbatim>\<open>str.strip()\<close> and \<^verbatim>\<open>str.lower()\<close> on the code points below 256, which is what a
  \<open>char\<close> holds: the white space of \<^verbatim>\<open>str.isspace\<close> and the upper-case letters of ASCII
  and Latin-1.
\<close>

definition py_isspace :: "char \<Rightarrow> bool" where
  "py_isspace c = ((of_char c :: nat) \<in> {9, 10, 11, 12, 13, 28, 29, 30, 31, 32, 133, 160})"

definition strip :: "string \<Rightarrow> string" where
  "strip cs = rev (dropWhile py_isspace (rev (dropWhile py_isspace cs)))"

definition lower_char :: "char \<Rightarrow> char" where
  "lower_char c =
     (let n = (of_char c :: nat)
      in if (65 \<le> n \<and> n \<le> 90) \<or> (192 \<le> n \<and> n \<le> 222 \<and> n \<noteq> 215) then char_of (n + 32) else c)"

definition lower :: "string \<Rightarrow> string" where
  "lower cs = map lower_char cs"

definition drive_commands :: "string list" where
  "drive_commands = [''w'', ''s'', ''a'', ''d'', ''x'', ''+'', ''-'']"

text \<open>
  One pass through the body of \<^verbatim>\<open>while True\<close> in \<^verbatim>\<open>handle_key_input\<close>, for the line
  that \<^verbatim>\<open>input()\<close> returned. The \<^verbatim>\<open>break\<close> after \<open>q\<close> is the thread leaving its loop.
\<close>

definition handle_key_line :: "string \<Rightarrow> state \<Rightarrow> state" where
  "handle_key_line line s =
     (let user_input = lower (strip line)
      in if user_input = ''q'' then
           s\<lparr>key_input_flag := True, command := ''q'', listening := False\<rparr>
         else if user_input \<in> set drive_commands then
           s\<lparr>key_input_flag := True, command := user_input\<rparr>
         else if user_input = ''p'' then
           send_pause_resume_to_arduino (s\<lparr>paused := \<not> paused s, key_input_flag := True\<rparr>)
         else s)"

text \<open>
  \<^verbatim>\<open>handle_key_input()\<close> as the thread runs it, on the lines the terminal delivers one
  after the other: the loop ends at the first \<open>q\<close>, and lines after it are not read.
\<close>

fun handle_key_input :: "string list \<Rightarrow> state \<Rightarrow> state" where
  "handle_key_input [] s = s"
| "handle_key_input (line # rest) s =
     (let s1 = handle_key_line line s
      in if listening s1 then handle_key_input rest s1 else s1)"

subsection \<open>The main loop\<close>

datatype flow = Continue | Break

text \<open>The block under \<^verbatim>\<open>if key_input_flag:\<close> at the head of the loop body.\<close>

definition poll_command :: "state \<Rightarrow> flow \<times> state" where
  "poll_command s =
     (if key_input_flag s then
        (if command s = ''q'' then (Break, s)
         else
           let s1 = (if command s = ''p'' then s else ser_write (command s) s)
           in (Continue, s1\<lparr>key_input_flag := False\<rparr>))
      else (Continue, s))"

text \<open>
  One iteration of the main loop. \<open>lines\<close> is what \<^verbatim>\<open>HoughLinesP\<close> finds in the frame
  captured in this iteration, \<open>window_q\<close> whether \<^verbatim>\<open>cv2.waitKey(1)\<close> reports the key
  \<open>q\<close>; both are only looked at when the iteration is not paused.
\<close>

definition main_iter :: "segment list option \<Rightarrow> bool \<Rightarrow> state \<Rightarrow> flow \<times> state" where
  "main_iter lines window_q s =
     (case poll_command s of
        (Break, s1) \<Rightarrow> (Break, s1)
      | (Continue, s1) \<Rightarrow>
          if paused s1 then (Continue, s1)
          else
            let angle = calculate_angle lines;
                s2 = send_angle_to_arduino angle s1
            in if window_q then (Break, s2) else (Continue, s2))"

text \<open>
  Sequential schedules: the listener thread handles a whole line, the main thread runs
  a whole iteration, or the main thread receives \<^verbatim>\<open>KeyboardInterrupt\<close>, one after the
  other. These are the schedules in which no thread runs between two statements of the
  other; the statement-level model below has all of them.
\<close>

datatype event = Key string | Iter "segment list option" bool | Interrupt

datatype loop_exit = LoopBreak | KeyboardInterrupt

text \<open>
  \<^verbatim>\<open>while True\<close> of the main thread over a schedule of events. \<open>None\<close>: the schedule is
  used up and the loop is still running. A line typed after the listener has left its
  loop is read by nobody.
\<close>

fun main_loop :: "event list \<Rightarrow> state \<Rightarrow> loop_exit option \<times> state" where
  "main_loop [] s = (None, s)"
| "main_loop (Key line # evs) s =
     main_loop evs (if listening s then handle_key_line line s else s)"
| "main_loop (Iter lines window_q # evs) s =
     (case main_iter lines window_q s of
        (Break, s1) \<Rightarrow> (Some LoopBreak, s1)
      | (Continue, s1) \<Rightarrow> main_loop evs s1)"
| "main_loop (Interrupt # evs) s = (Some KeyboardInterrupt, s)"

text \<open>
  The toggle lines of a schedule that reach the listener: those typed before the first
  \<open>q\<close> line.
\<close>

definition is_toggle :: "event \<Rightarrow> bool" where
  "is_toggle ev = (case ev of Key line \<Rightarrow> lower (strip line) = ''p'' | _ \<Rightarrow> False)"

definition is_quit :: "event \<Rightarrow> bool" where
  "is_quit ev = (case ev of Key line \<Rightarrow> lower (strip line) = ''q'' | _ \<Rightarrow> False)"

definition toggles_applied :: "event list \<Rightarrow> nat" where
  "toggles_applied evs = length (filter is_toggle (takeWhile (\<lambda>ev. \<not> is_quit ev) evs))"

text \<open>The writes that a step from \<open>s\<close> to \<open>s'\<close> added to the channel.\<close>

definition new_writes :: "state \<Rightarrow> state \<Rightarrow> string list" where
  "new_writes s s' = drop (length (channel s)) (channel s')"

subsection \<open>The two threads, statement by statement\<close>

text \<open>
  The source guards its globals by no lock, so the listener can run between any two
  statements of the main thread and the main thread between any two statements of the
  listener. Here each thread has a position, and a step executes the statement at that
  position. The positions of the main thread, from the start of the \<^verbatim>\<open>try\<close> body:
  \<^verbatim>\<open>picam2 = Picamera2()\<close> (line 184), \<^verbatim>\<open>picam2.start()\<close> (185), the start of the
  listener thread (188-189), \<^verbatim>\<open>if key_input_flag\<close> (193), \<^verbatim>\<open>if command == 'q'\<close> (194),
  \<^verbatim>\<open>elif command == 'p'\<close> (196), \<^verbatim>\<open>ser.write(command.encode())\<close> (201),
  \<^verbatim>\<open>key_input_flag = False\<close> (203), \<^verbatim>\<open>if paused\<close> (206), capture, image pipeline and
  \<^verbatim>\<open>calculate_angle\<close> (212-231), \<^verbatim>\<open>send_angle_to_arduino(angle)\<close> (234) with the local
  \<^verbatim>\<open>angle\<close>, display and \<^verbatim>\<open>cv2.waitKey\<close> (236-247); in the \<^verbatim>\<open>finally\<close> block
  \<^verbatim>\<open>picam2.stop()\<close> (253), \<^verbatim>\<open>picam2.close()\<close> with \<^verbatim>\<open>cv2.destroyAllWindows()\<close>
  (254-255), \<^verbatim>\<open>ser.close()\<close> (256); and the three ways the thread ends: after the
  \<^verbatim>\<open>finally\<close> block, by the \<^verbatim>\<open>NameError\<close> of an unbound \<^verbatim>\<open>picam2\<close>, by an interrupt
  inside the \<^verbatim>\<open>finally\<close> block.
\<close>

datatype main_pc =
    At_create | At_start | At_thread
  | At_flag_test | At_quit_test | At_toggle_test | At_write | At_reset
  | At_pause_test | At_capture | At_send real | At_waitkey
  | At_stop | At_close | At_ser_close
  | Exited | Name_error | Interrupted_in_finally

text \<open>
  The positions of the listener: not started, blocked in \<^verbatim>\<open>input()\<close> (line 160), and the
  assignments and the write of the three branches (164, 165; 168, 169; 171, 172, 173),
  the drive branch with its local \<^verbatim>\<open>user_input\<close>; and after the \<^verbatim>\<open>break\<close>.
\<close>

datatype key_pc =
    Not_started | At_input
  | At_quit_flag | At_quit_command
  | At_drive_flag string | At_drive_command string
  | At_toggle_flip | At_toggle_flag | At_toggle_send
  | Left_loop

text \<open>
  The globals, the two positions, and whether the name \<^verbatim>\<open>picam2\<close> is bound. At the start
  of the \<^verbatim>\<open>try\<close> body the port is open and nothing else has happened.
\<close>

record sys =
  globals :: state
  main_at :: main_pc
  key_at :: key_pc
  picam2_bound :: bool

definition sys_initial :: sys where
  "sys_initial =
     \<lparr>globals = initial_state\<lparr>listening := False\<rparr>, main_at = At_create,
      key_at = Not_started, picam2_bound = False\<rparr>"

text \<open>The main thread has not ended; with it the process, and the daemon thread, ends.\<close>

definition running :: "sys \<Rightarrow> bool" where
  "running t = (main_at t \<noteq> Exited \<and> main_at t \<noteq> Name_error \<and> main_at t \<noteq> Interrupted_in_finally)"

text \<open>
  One statement of the main thread. \<open>lines\<close> and \<open>window_q\<close> are what the camera with
  the detector and \<^verbatim>\<open>cv2.waitKey\<close> answer if the statement asks them.
\<close>

definition main_step :: "segment list option \<Rightarrow> bool \<Rightarrow> sys \<Rightarrow> sys" where
  "main_step lines window_q t =
     (let g = globals t in
      case main_at t of
        At_create \<Rightarrow> t\<lparr>picam2_bound := True, main_at := At_start\<rparr>
      | At_start \<Rightarrow> t\<lparr>main_at := At_thread\<rparr>
      | At_thread \<Rightarrow> t\<lparr>globals := g\<lparr>listening := True\<rparr>, key_at := At_input, main_at := At_flag_test\<rparr>
      | At_flag_test \<Rightarrow> t\<lparr>main_at := (if key_input_flag g then At_quit_test else At_pause_test)\<rparr>
      | At_quit_test \<Rightarrow> t\<lparr>main_at := (if command g = ''q'' then At_stop else At_toggle_test)\<rparr>
      | At_toggle_test \<Rightarrow> t\<lparr>main_at := (if command g = ''p'' then At_reset else At_write)\<rparr>
      | At_write \<Rightarrow> t\<lparr>globals := ser_write (command g) g, main_at := At_reset\<rparr>
      | At_reset \<Rightarrow> t\<lparr>globals := g\<lparr>key_input_flag := False\<rparr>, main_at := At_pause_test\<rparr>
      | At_pause_test \<Rightarrow> t\<lparr>main_at := (if paused g then At_flag_test else At_capture)\<rparr>
      | At_capture \<Rightarrow> t\<lparr>main_at := At_send (calculate_angle lines)\<rparr>
      | At_send angle \<Rightarrow> t\<lparr>globals := send_angle_to_arduino angle g, main_at := At_waitkey\<rparr>
      | At_waitkey \<Rightarrow> t\<lparr>main_at := (if window_q then At_stop else At_flag_test)\<rparr>
      | At_stop \<Rightarrow>
          if picam2_bound t then t\<lparr>globals := g\<lparr>picam2_stops := picam2_stops g + 1\<rparr>, main_at := At_close\<rparr>
          else t\<lparr>main_at := Name_error\<rparr>
      | At_close \<Rightarrow> t\<lparr>globals := g\<lparr>picam2_closes := picam2_closes g + 1\<rparr>, main_at := At_ser_close\<rparr>
      | At_ser_close \<Rightarrow> t\<lparr>globals := g\<lparr>ser_closes := ser_closes g + 1\<rparr>, main_at := Exited\<rparr>
      | Exited \<Rightarrow> t
      | Name_error \<Rightarrow> t
      | Interrupted_in_finally \<Rightarrow> t)"

text \<open>
  One statement of the listener; \<open>line\<close> is what \<^verbatim>\<open>input()\<close> returns if the statement is
  the \<^verbatim>\<open>input()\<close>. The tests on the local \<^verbatim>\<open>user_input\<close> touch no global and are taken
  together with it.
\<close>

definition key_step :: "string \<Rightarrow> sys \<Rightarrow> sys" where
  "key_step line t =
     (let g = globals t in
      if \<not> running t then t
      else case key_at t of
        Not_started \<Rightarrow> t
      | At_input \<Rightarrow>
          (let user_input = lower (strip line)
           in t\<lparr>key_at :=
                 (if user_input = ''q'' then At_quit_flag
                  else if user_input \<in> set drive_commands then At_drive_flag user_input
                  else if user_input = ''p'' then At_toggle_flip
                  else At_input)\<rparr>)
      | At_quit_flag \<Rightarrow> t\<lparr>globals := g\<lparr>key_input_flag := True\<rparr>, key_at := At_quit_command\<rparr>
      | At_quit_command \<Rightarrow> t\<lparr>globals := g\<lparr>command := ''q'', listening := False\<rparr>, key_at := Left_loop\<rparr>
      | At_drive_flag c \<Rightarrow> t\<lparr>globals := g\<lparr>key_input_flag := True\<rparr>, key_at := At_drive_command c\<rparr>
      | At_drive_command c \<Rightarrow> t\<lparr>globals := g\<lparr>command := c\<rparr>, key_at := At_input\<rparr>
      | At_toggle_flip \<Rightarrow> t\<lparr>globals := g\<lparr>paused := \<not> paused g\<rparr>, key_at := At_toggle_flag\<rparr>
      | At_toggle_flag \<Rightarrow> t\<lparr>globals := g\<lparr>key_input_flag := True\<rparr>, key_at := At_toggle_send\<rparr>
      | At_toggle_send \<Rightarrow> t\<lparr>globals := send_pause_resume_to_arduino g, key_at := At_input\<rparr>
      | Left_loop \<Rightarrow> t)"

text \<open>
  \<^verbatim>\<open>KeyboardInterrupt\<close> is raised in the main thread at its current statement, which has
  no effect then. Inside the \<^verbatim>\<open>try\<close> body the handler prints and the \<^verbatim>\<open>finally\<close> block
  follows; inside the \<^verbatim>\<open>finally\<close> block the exception leaves the program.
\<close>

definition in_finally :: "main_pc \<Rightarrow> bool" where
  "in_finally pc = (pc = At_stop \<or> pc = At_close \<or> pc = At_ser_close)"

definition interrupt :: "sys \<Rightarrow> sys" where
  "interrupt t =
     (if \<not> running t then t
      else if in_finally (main_at t) then t\<lparr>main_at := Interrupted_in_finally\<rparr>
      else t\<lparr>main_at := At_stop\<rparr>)"

text \<open>A schedule says which thread takes the next step, or that the interrupt arrives.\<close>

datatype tick = Main_tick "segment list option" bool | Key_tick string | Sigint

fun tick_step :: "tick \<Rightarrow> sys \<Rightarrow> sys" where
  "tick_step (Main_tick lines window_q) t = main_step lines window_q t"
| "tick_step (Key_tick line) t = key_step line t"
| "tick_step Sigint t = interrupt t"

fun run_ticks :: "tick list \<Rightarrow> sys \<Rightarrow> sys" where
  "run_ticks [] t = t"
| "run_ticks (k # ks) t = run_ticks ks (tick_step k t)"

text \<open>
  A quit request that can no longer be seen: the listener has left its loop, the flag is
  down, the mode is paused, and the main thread is at the head of its loop.
\<close>

definition quit_lost :: "sys \<Rightarrow> bool" where
  "quit_lost t =
     (\<not> key_input_flag (globals t) \<and> paused (globals t) \<and> key_at t = Left_loop \<and>
      (main_at t = At_flag_test \<or> main_at t = At_pause_test))"

section \<open>Properties of the steering angle\<close>

lemma angle_sum_loop_acc: "angle_sum_loop ls acc = acc + sum_list (map orientation ls)"
  by (induction ls acc rule: angle_sum_loop.induct) (auto simp: orientation_def)

lemma arctan2_bounds: "- pi < arctan2 y x \<and> arctan2 y x \<le> pi"
proof -
  have a: "- (pi / 2) < arctan (y / x)" "arctan (y / x) < pi / 2"
    by (rule arctan_lbound, rule arctan_ubound)
  have p: "0 < pi" by simp
  show ?thesis
  proof (cases "0 < x")
    case True
    then show ?thesis using a p by (simp add: arctan2_def)
  next
    case False
    note nx = this
    show ?thesis
    proof (cases "x < 0")
      case True
      show ?thesis
      proof (cases "0 \<le> y")
        case True
        with \<open>x < 0\<close> have "y / x \<le> 0" by (simp add: divide_nonneg_neg)
        then have "arctan (y / x) \<le> 0" by (simp add: arctan_le_zero_iff)
        then show ?thesis using a p \<open>x < 0\<close> True by (simp add: arctan2_def)
      next
        case False
        with \<open>x < 0\<close> have "0 < y / x" by (simp add: divide_neg_neg)
        then have "0 < arctan (y / x)" by (simp add: zero_less_arctan_iff)
        then show ?thesis using a p \<open>x < 0\<close> False by (simp add: arctan2_def)
      qed
    next
      case False
      have h: "- (pi / 2) \<le> pi" "- pi < pi / 2" "- pi < - (pi / 2)" "pi / 2 \<le> pi"
        using p by linarith+
      from False nx have "x = 0" by simp
      then show ?thesis using h p by (cases "0 < y"; cases "y < 0"; simp add: arctan2_def; linarith)
    qed
  qed
qed

lemma sum_orientation_bounds:
  "ls \<noteq> [] \<Longrightarrow> - (real (length ls) * pi) < sum_list (map orientation ls) \<and>
     sum_list (map orientation ls) \<le> real (length ls) * pi"
proof (induction ls)
  case Nil
  then show ?case by simp
next
  case (Cons sg ls)
  obtain x1 y1 x2 y2 where sg: "sg = (x1, y1, x2, y2)" by (cases sg) auto
  have b: "- pi < orientation sg \<and> orientation sg \<le> pi"
    using arctan2_bounds by (simp add: orientation_def sg)
  show ?case
  proof (cases "ls = []")
    case True
    then show ?thesis using b by simp
  next
    case False
    with Cons.IH have "- (real (length ls) * pi) < sum_list (map orientation ls) \<and>
     sum_list (map orientation ls) \<le> real (length ls) * pi" by simp
    then show ?thesis using b by (simp add: algebra_simps)
  qed
qed


text \<open>
  Claim C5. When the detector reports no segment, as \<^verbatim>\<open>None\<close> or as an empty array,
  \<^verbatim>\<open>calculate_angle\<close> returns exactly 0 degrees; it is a value, not an error.
\<close>

theorem calculate_angle_no_lines:
  "calculate_angle None = 0 \<and> calculate_angle (Some []) = 0"
  by (simp add: calculate_angle_def)

text \<open>
  Claim C6. For a non-empty list of segments the result of the summing loop, divided
  by the number of segments and converted, is the unweighted mean of the orientations
  in degrees. One segment from (0,0) to (10,10) gives 45 degrees, one from (0,0) to
  (10,-10) gives -45 degrees.
\<close>

theorem calculate_angle_is_mean:
  "(ls \<noteq> [] \<longrightarrow> calculate_angle (Some ls) = spec_mean_degrees ls) \<and>
   calculate_angle (Some [(0, 0, 10, 10)]) = 45 \<and>
   calculate_angle (Some [(0, 0, 10, - 10)]) = - 45"
proof (intro conjI impI)
  assume "ls \<noteq> []"
  then show "calculate_angle (Some ls) = spec_mean_degrees ls"
    by (simp add: calculate_angle_def spec_mean_degrees_def angle_sum_loop_acc)
next
  show "calculate_angle (Some [(0, 0, 10, 10)]) = 45"
    by (simp add: calculate_angle_def arctan2_def degrees_def arctan_one)
next
  show "calculate_angle (Some [(0, 0, 10, - 10)]) = - 45"
    by (simp add: calculate_angle_def arctan2_def degrees_def arctan_one arctan_minus)
qed

theorem calculate_angle_is_mean_witness:
  "[(0, 0, 10, 10), (0, 0, 10, - 10)] \<noteq> ([] :: segment list) \<and>
   calculate_angle (Some [(0, 0, 10, 10), (0, 0, 10, - 10)]) =
     spec_mean_degrees [(0, 0, 10, 10), (0, 0, 10, - 10)] \<and>
   spec_mean_degrees [(0, 0, 10, 10), (0, 0, 10, - 10)] = 0"
  using calculate_angle_is_mean [of "[(0, 0, 10, 10), (0, 0, 10, - 10)]"]
  by (simp add: spec_mean_degrees_def orientation_def arctan2_def degrees_def arctan_minus)

lemma calculate_angle_real_range:
  "- 180 < calculate_angle lines \<and> calculate_angle lines \<le> 180"
proof (cases lines)
  case None
  then show ?thesis by (simp add: calculate_angle_def)
next
  case (Some ls)
  show ?thesis
  proof (cases "ls = []")
    case True
    then show ?thesis using Some by (simp add: calculate_angle_def)
  next
    case False
    define n where "n = real (length ls)"
    define t where "t = sum_list (map orientation ls)"
    have n: "0 < n" using False by (simp add: n_def)
    have b: "- (n * pi) < t" "t \<le> n * pi"
      using sum_orientation_bounds[OF False] by (simp_all add: n_def t_def)
    have c: "calculate_angle lines = t / n * 180 / pi"
      using Some False by (simp add: calculate_angle_def angle_sum_loop_acc degrees_def n_def t_def)
    have p: "0 < pi" by simp
    have np: "0 < n * pi" using n p by simp
    have l: "- 1 < t / (n * pi)" using b(1) np by (simp add: pos_less_divide_eq)
    have u: "t / (n * pi) \<le> 1" using b(2) np by (simp add: pos_divide_le_eq)
    have e: "t / n * 180 / pi = 180 * (t / (n * pi))" by simp
    show ?thesis unfolding c e using l u by simp
  qed
qed

lemma arctan2_abs: "\<bar>arctan2 y x\<bar> \<le> pi"
proof -
  have a: "- (pi / 2) < arctan (y / x)" "arctan (y / x) < pi / 2"
    by (rule arctan_lbound, rule arctan_ubound)
  have p: "0 < pi" by simp
  show ?thesis
  proof (cases "0 < x")
    case True
    then show ?thesis using a p by (simp add: arctan2_def abs_le_iff)
  next
    case nx: False
    show ?thesis
    proof (cases "x < 0")
      case True
      show ?thesis
      proof (cases "0 \<le> y")
        case True
        with \<open>x < 0\<close> have "y / x \<le> 0" by (simp add: divide_nonneg_neg)
        then have "arctan (y / x) \<le> 0" by (simp add: arctan_le_zero_iff)
        then show ?thesis using a p \<open>x < 0\<close> True by (simp add: arctan2_def abs_le_iff)
      next
        case False
        with \<open>x < 0\<close> have "0 < y / x" by (simp add: divide_neg_neg)
        then have "0 < arctan (y / x)" by (simp add: zero_less_arctan_iff)
        then show ?thesis using a p \<open>x < 0\<close> False by (simp add: arctan2_def abs_le_iff)
      qed
    next
      case False
      with nx have "x = 0" by simp
      then show ?thesis using p
        by (cases "0 < y"; cases "y < 0"; simp add: arctan2_def abs_le_iff; linarith)
    qed
  qed
qed

lemma arctan2_right_half: "0 \<le> x \<Longrightarrow> \<bar>arctan2 y x\<bar> \<le> pi / 2"
proof (cases "0 < x")
  case True
  have "- (pi / 2) < arctan (y / x)" "arctan (y / x) < pi / 2"
    by (rule arctan_lbound, rule arctan_ubound)
  then show ?thesis using True by (simp add: arctan2_def abs_le_iff)
next
  case False
  assume "0 \<le> x"
  with False have "x = 0" by simp
  have p: "0 < pi" by simp
  from \<open>x = 0\<close> show ?thesis using p
    by (cases "0 < y"; cases "y < 0"; simp add: arctan2_def abs_le_iff)
qed

lemma atan2_range_arctan2: "atan2_range arctan2"
  unfolding atan2_range_def using arctan2_abs arctan2_right_half by blast

lemma sum_orientation_abs:
  "(\<forall>sg \<in> set ls. \<bar>orientation sg\<bar> \<le> A) \<Longrightarrow>
     \<bar>sum_list (map orientation ls)\<bar> \<le> real (length ls) * A"
proof (induction ls)
  case Nil
  then show ?case by simp
next
  case (Cons sg ls)
  then have "\<bar>orientation sg\<bar> \<le> A" "\<bar>sum_list (map orientation ls)\<bar> \<le> real (length ls) * A"
    by simp_all
  then show ?case by (simp add: algebra_simps)
qed

lemma calculate_angle_abs:
  assumes A: "0 \<le> A"
    and seg: "\<forall>ls. lines = Some ls \<longrightarrow> (\<forall>sg \<in> set ls. \<bar>orientation sg\<bar> \<le> A)"
  shows "\<bar>calculate_angle lines\<bar> \<le> A * (180 / pi)"
proof (cases lines)
  case None
  then show ?thesis using A by (simp add: calculate_angle_def)
next
  case (Some ls)
  show ?thesis
  proof (cases "ls = []")
    case True
    then show ?thesis using Some A by (simp add: calculate_angle_def)
  next
    case False
    define n where "n = real (length ls)"
    define t where "t = sum_list (map orientation ls)"
    have n: "0 < n" using False by (simp add: n_def)
    have "\<bar>t\<bar> \<le> n * A" unfolding t_def n_def using seg Some by (intro sum_orientation_abs) simp
    then have "\<bar>t\<bar> / n \<le> A" using n by (simp add: pos_divide_le_eq mult.commute)
    then have "\<bar>t / n\<bar> * (180 / pi) \<le> A * (180 / pi)"
      using n by (intro mult_right_mono) simp_all
    moreover have "calculate_angle lines = t / n * (180 / pi)"
      using Some False by (simp add: calculate_angle_def angle_sum_loop_acc degrees_def n_def t_def)
    ultimately show ?thesis by (simp add: abs_mult)
  qed
qed

lemma left_to_right_orientation:
  "left_to_right (Some ls) \<Longrightarrow> sg \<in> set ls \<Longrightarrow> \<bar>orientation sg\<bar> \<le> pi / 2"
proof -
  assume l: "left_to_right (Some ls)" and m: "sg \<in> set ls"
  obtain x1 y1 x2 y2 where sg: "sg = (x1, y1, x2, y2)" by (cases sg) auto
  from l m sg have "x1 \<le> x2" by (auto simp: left_to_right_def list_all_iff)
  then have "(0::real) \<le> of_int (x2 - x1)" by simp
  then have "\<bar>arctan2 (of_int (y2 - y1)) (of_int (x2 - x1))\<bar> \<le> pi / 2"
    by (rule arctan2_right_half)
  then show ?thesis by (simp add: orientation_def sg)
qed

subsection \<open>Rounding\<close>

lemma round_even_error: "\<bar>of_int (round_even m) - m\<bar> \<le> 1 / 2"
proof -
  have "of_int \<lfloor>m\<rfloor> \<le> m" "m < of_int \<lfloor>m\<rfloor> + 1" by linarith+
  then show ?thesis by (auto simp: round_even_def Let_def)
qed

lemma fl_error: "\<bar>fl x - x\<bar> \<le> unit_roundoff * \<bar>x\<bar>"
proof (cases "x = 0")
  case True
  then show ?thesis by (simp add: fl_def)
next
  case False
  define e where "e = \<lfloor>log 2 \<bar>x\<bar>\<rfloor>"
  define q :: real where "q = 2 powr (of_int e - 52)"
  have q: "0 < q" by (simp add: q_def)
  have ax: "0 < \<bar>x\<bar>" using False by simp
  have "of_int e \<le> log 2 \<bar>x\<bar>" by (simp add: e_def)
  then have "2 powr of_int e \<le> 2 powr log 2 \<bar>x\<bar>" by (simp add: powr_mono)
  then have pe: "2 powr of_int e \<le> \<bar>x\<bar>" using ax by simp
  have qe: "q = 2 powr of_int e / 2 ^ 52"
    by (simp add: q_def powr_diff powr_realpow[symmetric])
  have "fl x - x = (of_int (round_even (x / q)) - x / q) * q"
    using False q by (simp add: fl_def Let_def q_def e_def algebra_simps)
  then have "\<bar>fl x - x\<bar> = \<bar>of_int (round_even (x / q)) - x / q\<bar> * q"
    using q by (simp add: abs_mult)
  also have "\<dots> \<le> (1 / 2) * q"
    using round_even_error[of "x / q"] q by (intro mult_right_mono) simp_all
  also have "\<dots> = 2 powr of_int e / 2 ^ 53" by (simp add: qe)
  also have "\<dots> \<le> \<bar>x\<bar> / 2 ^ 53" using pe by (simp add: divide_right_mono)
  finally show ?thesis by (simp add: unit_roundoff_def)
qed

lemma fl_abs: "\<bar>fl x\<bar> \<le> \<bar>x\<bar> * (1 + unit_roundoff)"
  using fl_error[of x] by (simp add: algebra_simps)

lemma fl_lower: "0 < x \<Longrightarrow> x * (1 - unit_roundoff) \<le> fl x"
  using fl_error[of x] by (simp add: algebra_simps)

lemma u_pos: "0 < unit_roundoff" "unit_roundoff < 1"
  by (simp_all add: unit_roundoff_def)

lemma sum_loop_fl_bound:
  assumes A: "0 \<le> A"
    and seg: "\<forall>(x1, y1, x2, y2) \<in> set ls. \<bar>atan2_lib (of_int (y2 - y1)) (of_int (x2 - x1))\<bar> \<le> A"
    and acc: "\<bar>acc\<bar> \<le> real k * A * (1 + unit_roundoff) ^ k"
  shows "\<bar>angle_sum_loop_fl atan2_lib ls acc\<bar>
           \<le> real (k + length ls) * A * (1 + unit_roundoff) ^ (k + length ls)"
  using seg acc
proof (induction ls arbitrary: acc k)
  case Nil
  then show ?case by simp
next
  case (Cons sg ls)
  obtain x1 y1 x2 y2 where sg: "sg = (x1, y1, x2, y2)" by (cases sg) auto
  define a where "a = atan2_lib (of_int (y2 - y1)) (of_int (x2 - x1))"
  define w where "w = 1 + unit_roundoff"
  have w: "1 \<le> w" "0 \<le> w" using u_pos by (simp_all add: w_def)
  have wk: "1 \<le> w ^ k" using w by (simp add: one_le_power)
  have a: "\<bar>a\<bar> \<le> A" using Cons.prems(1) by (simp add: sg a_def)
  have "\<bar>fl (acc + a)\<bar> \<le> \<bar>acc + a\<bar> * w" unfolding w_def by (rule fl_abs)
  also have "\<dots> \<le> (real k * A * w ^ k + A) * w"
  proof (intro mult_right_mono)
    have "\<bar>acc + a\<bar> \<le> \<bar>acc\<bar> + \<bar>a\<bar>" by simp
    also have "\<dots> \<le> real k * A * w ^ k + A" using Cons.prems(2) a by (simp add: w_def)
    finally show "\<bar>acc + a\<bar> \<le> real k * A * w ^ k + A" .
  qed (use w in simp)
  also have "\<dots> \<le> (real k * A * w ^ k + A * w ^ k) * w"
  proof (intro mult_right_mono add_left_mono)
    show "A \<le> A * w ^ k" using A wk by (simp add: mult_le_cancel_left1)
  qed (use w in simp)
  also have "\<dots> = real (Suc k) * A * w ^ Suc k" by (simp add: algebra_simps)
  finally have acc': "\<bar>fl (acc + a)\<bar> \<le> real (Suc k) * A * (1 + unit_roundoff) ^ Suc k"
    by (simp add: w_def)
  have seg': "\<forall>(x1, y1, x2, y2) \<in> set ls. \<bar>atan2_lib (of_int (y2 - y1)) (of_int (x2 - x1))\<bar> \<le> A"
    using Cons.prems(1) by simp
  from Cons.IH[OF seg' acc'] show ?case by (simp add: sg a_def)
qed

lemma deg_per_rad_bound: "\<bar>deg_per_rad\<bar> \<le> 180 / pi * (1 + unit_roundoff) ^ 3"
proof -
  define u where "u = unit_roundoff"
  have u: "0 < u" "u < 1" using u_pos by (simp_all add: u_def)
  have u2: "u \<le> 1 / 2" by (simp add: u_def unit_roundoff_def)
  have p: "0 < pi" by simp
  have lo: "pi * (1 - u) \<le> fl pi" unfolding u_def using p by (rule fl_lower)
  have pos: "0 < pi * (1 - u)" using p u by simp
  then have fp: "0 < fl pi" using lo by linarith
  have "180 / fl pi \<le> 180 / (pi * (1 - u))" using lo pos by (simp add: frac_le)
  also have "\<dots> \<le> 180 / pi * (1 + u) ^ 2"
  proof -
    have "1 \<le> (1 - u) * (1 + u) ^ 2"
    proof -
      have "(1 - u) * (1 + u) ^ 2 = 1 + u * (1 - u - u * u)" by (simp add: power2_eq_square algebra_simps)
      moreover have "0 \<le> 1 - u - u * u"
      proof -
        have "u * u \<le> u * (1 / 2)" using u u2 by (intro mult_left_mono) simp_all
        then show ?thesis using u2 by linarith
      qed
      ultimately show ?thesis using u by simp
    qed
    then have "1 / (1 - u) \<le> (1 + u) ^ 2" using u by (simp add: pos_divide_le_eq mult.commute)
    then have "180 / pi * (1 / (1 - u)) \<le> 180 / pi * (1 + u) ^ 2"
      using p by (intro mult_left_mono) simp_all
    then show ?thesis by simp
  qed
  finally have q: "180 / fl pi \<le> 180 / pi * (1 + u) ^ 2" .
  have nn: "0 \<le> 180 / fl pi" using fp by simp
  have "\<bar>deg_per_rad\<bar> \<le> \<bar>180 / fl pi\<bar> * (1 + u)" unfolding deg_per_rad_def u_def by (rule fl_abs)
  also have "\<dots> = 180 / fl pi * (1 + u)" using nn by simp
  also have "\<dots> \<le> 180 / pi * (1 + u) ^ 2 * (1 + u)" using q u by (intro mult_right_mono) simp_all
  also have "\<dots> = 180 / pi * (1 + u) ^ 3" by (simp add: power3_eq_cube power2_eq_square)
  finally show ?thesis by (simp add: u_def)
qed

lemma calculate_angle_fl_bound:
  assumes A: "0 \<le> A"
    and seg: "\<forall>ls. lines = Some ls \<longrightarrow>
        (\<forall>(x1, y1, x2, y2) \<in> set ls. \<bar>atan2_lib (of_int (y2 - y1)) (of_int (x2 - x1))\<bar> \<le> A)"
  shows "\<bar>calculate_angle_fl atan2_lib lines\<bar>
           \<le> A * (180 / pi) * (1 + unit_roundoff) ^ (segment_count lines + 5)"
proof -
  define w where "w = 1 + unit_roundoff"
  have w: "1 \<le> w" "0 \<le> w" "0 < w" using u_pos by (simp_all add: w_def)
  have nonneg: "0 \<le> A * (180 / pi) * w ^ k" for k using A w by simp
  show ?thesis
  proof (cases lines)
    case None
    then show ?thesis using nonneg by (simp add: calculate_angle_fl_def w_def)
  next
    case (Some ls)
    show ?thesis
    proof (cases "ls = []")
      case True
      then show ?thesis using Some nonneg by (simp add: calculate_angle_fl_def w_def)
    next
      case False
      define n where "n = length ls"
      have n: "0 < n" using False by (simp add: n_def)
      define s where "s = angle_sum_loop_fl atan2_lib ls 0"
      have sg: "\<forall>(x1, y1, x2, y2) \<in> set ls. \<bar>atan2_lib (of_int (y2 - y1)) (of_int (x2 - x1))\<bar> \<le> A"
        using seg Some by simp
      have "\<bar>s\<bar> \<le> real (0 + length ls) * A * (1 + unit_roundoff) ^ (0 + length ls)"
        unfolding s_def by (rule sum_loop_fl_bound[OF A sg]) simp
      then have s: "\<bar>s\<bar> \<le> real n * A * w ^ n" by (simp add: n_def w_def)
      define avg where "avg = fl (s / real n)"
      have "\<bar>avg\<bar> \<le> \<bar>s / real n\<bar> * w" unfolding avg_def w_def by (rule fl_abs)
      also have "\<bar>s / real n\<bar> = \<bar>s\<bar> / real n" using n by simp
      also have "\<bar>s\<bar> / real n * w \<le> (real n * A * w ^ n) / real n * w"
        using s n w by (intro mult_right_mono divide_right_mono) simp_all
      also have "\<dots> = A * w ^ Suc n" using n by simp
      finally have avg: "\<bar>avg\<bar> \<le> A * w ^ Suc n" .
      have "\<bar>degrees_fl avg\<bar> \<le> \<bar>avg * deg_per_rad\<bar> * w"
        unfolding degrees_fl_def w_def by (rule fl_abs)
      also have "\<dots> = \<bar>avg\<bar> * \<bar>deg_per_rad\<bar> * w" by (simp add: abs_mult)
      also have "\<dots> \<le> (A * w ^ Suc n) * (180 / pi * w ^ 3) * w"
      proof (intro mult_right_mono mult_mono)
        show "\<bar>deg_per_rad\<bar> \<le> 180 / pi * w ^ 3" unfolding w_def by (rule deg_per_rad_bound)
      qed (use avg w A in simp_all)
      also have "\<dots> = A * (180 / pi) * w ^ (n + 5)"
      proof -
        have "w ^ (n + 5) = w ^ Suc n * w ^ 3 * w"
          by (simp add: power_add power3_eq_cube eval_nat_numeral)
        then show ?thesis by simp
      qed
      finally have "\<bar>degrees_fl avg\<bar> \<le> A * (180 / pi) * w ^ (n + 5)" .
      then show ?thesis
        using Some False by (simp add: calculate_angle_fl_def Let_def s_def avg_def n_def w_def segment_count_def)
    qed
  qed
qed

text \<open>
  Claim C7, as stated: the angle lies in (-90, 90] for every list of segments. It does
  not. A vertical segment from (0,10) to (0,0) has orientation \<open>- pi / 2\<close> and gives
  exactly -90 degrees, outside the open end of the interval; a segment that runs from
  (10,0) to (0,0) has orientation \<open>pi\<close> and gives 180 degrees. Both values are the same
  in float64.
\<close>

theorem calculate_angle_range_counterexample:
  "\<not> (- 90 < calculate_angle (Some [(0, 10, 0, 0)]) \<and>
      calculate_angle (Some [(0, 10, 0, 0)]) \<le> 90) \<and>
   calculate_angle (Some [(0, 10, 0, 0)]) = - 90 \<and>
   calculate_angle (Some [(10, 0, 0, 0)]) = 180"
  by (simp add: calculate_angle_def arctan2_def degrees_def)

text \<open>
  Claim C7, amended: for every result of the detector with \<open>n\<close> segments the angle
  computed in float64 is at most \<open>180 * (1 + 1 / 2 ^ 53) ^ (n + 5)\<close> in magnitude, that is
  180 degrees up to rounding, and at most \<open>90 * (1 + 1 / 2 ^ 53) ^ (n + 5)\<close> when every
  segment runs from left to right. In exact arithmetic the angle lies in (-180, 180],
  and in [-90, 90] when every segment runs from left to right.
\<close>

theorem calculate_angle_fl_range:
  "(atan2_range atan2_lib \<longrightarrow>
      \<bar>calculate_angle_fl atan2_lib lines\<bar>
        \<le> 180 * (1 + unit_roundoff) ^ (segment_count lines + 5)) \<and>
   (atan2_range atan2_lib \<and> left_to_right lines \<longrightarrow>
      \<bar>calculate_angle_fl atan2_lib lines\<bar>
        \<le> 90 * (1 + unit_roundoff) ^ (segment_count lines + 5)) \<and>
   - 180 < calculate_angle lines \<and> calculate_angle lines \<le> 180 \<and>
   (left_to_right lines \<longrightarrow> - 90 \<le> calculate_angle lines \<and> calculate_angle lines \<le> 90)"
proof (intro conjI impI)
  assume r: "atan2_range atan2_lib"
  have "\<bar>calculate_angle_fl atan2_lib lines\<bar>
      \<le> pi * (180 / pi) * (1 + unit_roundoff) ^ (segment_count lines + 5)"
    using r by (intro calculate_angle_fl_bound) (auto simp: atan2_range_def)
  then show "\<bar>calculate_angle_fl atan2_lib lines\<bar>
      \<le> 180 * (1 + unit_roundoff) ^ (segment_count lines + 5)" by simp
next
  assume r: "atan2_range atan2_lib \<and> left_to_right lines"
  have half: "\<bar>atan2_lib (of_int (y2 - y1)) (of_int (x2 - x1))\<bar> \<le> pi / 2"
    if "x1 \<le> x2" for x1 y1 x2 y2 :: int
  proof -
    from that have "(0::real) \<le> of_int (x2 - x1)" by simp
    with r show ?thesis unfolding atan2_range_def by blast
  qed
  have "\<bar>calculate_angle_fl atan2_lib lines\<bar>
      \<le> pi / 2 * (180 / pi) * (1 + unit_roundoff) ^ (segment_count lines + 5)"
  proof (intro calculate_angle_fl_bound)
    show "\<forall>ls. lines = Some ls \<longrightarrow>
        (\<forall>(x1, y1, x2, y2) \<in> set ls. \<bar>atan2_lib (of_int (y2 - y1)) (of_int (x2 - x1))\<bar> \<le> pi / 2)"
      using r half by (fastforce simp: left_to_right_def list_all_iff)
  qed simp
  then show "\<bar>calculate_angle_fl atan2_lib lines\<bar>
      \<le> 90 * (1 + unit_roundoff) ^ (segment_count lines + 5)" by simp
next
  show "- 180 < calculate_angle lines" using calculate_angle_real_range by simp
  show "calculate_angle lines \<le> 180" using calculate_angle_real_range by simp
next
  assume l: "left_to_right lines"
  have "\<bar>calculate_angle lines\<bar> \<le> pi / 2 * (180 / pi)"
    using l by (intro calculate_angle_abs) (auto dest: left_to_right_orientation)
  then have "\<bar>calculate_angle lines\<bar> \<le> 90" by simp
  then show "- 90 \<le> calculate_angle lines" "calculate_angle lines \<le> 90" by simp_all
qed

theorem calculate_angle_fl_range_witness:
  "atan2_range arctan2 \<and> left_to_right (Some [(0, 10, 0, 0)]) \<and>
   segment_count (Some [(0, 10, 0, 0)]) = 1 \<and>
   \<bar>calculate_angle_fl arctan2 (Some [(0, 10, 0, 0)])\<bar> \<le> 90 * (1 + unit_roundoff) ^ 6 \<and>
   calculate_angle (Some [(0, 10, 0, 0)]) = - 90"
proof -
  have h1: "atan2_range arctan2" by (rule atan2_range_arctan2)
  have h2: "left_to_right (Some [(0, 10, 0, 0)])" by (simp add: left_to_right_def)
  have c: "segment_count (Some [(0, 10, 0, 0)]) = 1" by (simp add: segment_count_def)
  have v: "calculate_angle (Some [(0, 10, 0, 0)]) = - 90"
    by (simp add: calculate_angle_def arctan2_def degrees_def)
  from calculate_angle_fl_range [of arctan2 "Some [(0, 10, 0, 0)]"] h1 h2 c v
  show ?thesis by simp
qed

section \<open>Properties of the angle frame\<close>

lemma digit_val_digit_char: "d < 10 \<Longrightarrow> digit_val (digit_char d) = d"
  by (simp add: digit_val_def digit_char_def)

lemma read_nat_snoc: "read_nat (cs @ [c]) = 10 * read_nat cs + digit_val c"
  by (simp add: read_nat_def)

lemma read_nat_str_nat: "read_nat (str_nat n) = n"
proof (induction n rule: str_nat.induct)
  case (1 n)
  show ?case
  proof (cases "n < 10")
    case True
    then show ?thesis
      by (simp add: str_nat.simps[of n] read_nat_def digit_val_digit_char)
  next
    case False
    with 1 have "read_nat (str_nat (n div 10)) = n div 10" by simp
    with False show ?thesis
      by (simp add: str_nat.simps[of n] read_nat_snoc digit_val_digit_char)
  qed
qed

lemma digit_char_not_minus: "d < 10 \<Longrightarrow> digit_char d \<noteq> CHR ''-''"
proof
  assume d: "d < 10" and e: "digit_char d = CHR ''-''"
  from e have "(of_char (digit_char d) :: nat) = of_char (CHR ''-'')" by simp
  with d show False by (simp add: digit_char_def)
qed

lemma str_nat_head: "\<exists>c rest. str_nat n = c # rest \<and> c \<noteq> CHR ''-''"
proof (induction n rule: str_nat.induct)
  case (1 n)
  show ?case
  proof (cases "n < 10")
    case True
    then show ?thesis by (simp add: str_nat.simps[of n] digit_char_not_minus)
  next
    case False
    with 1 obtain c rest where "str_nat (n div 10) = c # rest" "c \<noteq> CHR ''-''" by auto
    with False show ?thesis by (simp add: str_nat.simps[of n])
  qed
qed

lemma read_int_str_int: "read_int (str_int i) = i"
proof (cases "i < 0")
  case True
  then show ?thesis by (simp add: read_int_def str_int_def read_nat_str_nat)
next
  case False
  obtain c rest where h: "str_nat (nat i) = c # rest" "c \<noteq> CHR ''-''"
    using str_nat_head by blast
  have "read_nat (c # rest) = nat i" using read_nat_str_nat[of "nat i"] h by simp
  with False h show ?thesis by (simp add: read_int_def str_int_def)
qed

lemma py_int_trunc: "of_int (py_int x) = sgn x * of_int \<lfloor>\<bar>x\<bar>\<rfloor>"
proof (cases "x < 0")
  case True
  then show ?thesis by (simp add: py_int_def ceiling_def)
next
  case False
  then show ?thesis by (cases "x = 0") (simp_all add: py_int_def)
qed


text \<open>
  Claim C8. \<^verbatim>\<open>send_angle_to_arduino\<close> appends one write to the channel and changes
  nothing else. The write is the letter \<open>A\<close>, the decimal text of the angle with its
  fractional part cut off (the sign of the angle times the floor of its absolute value),
  and a line feed; the decimal text reads back as that integer. For 37.9 the write is
  \<open>A37\<close> and a line feed.
\<close>

theorem send_angle_frame:
  "send_angle_to_arduino angle s =
     s\<lparr>channel := channel s @ [CHR ''A'' # str_int (py_int angle) @ [CHR 0x0A]]\<rparr> \<and>
   of_int (py_int angle) = sgn angle * of_int \<lfloor>\<bar>angle\<bar>\<rfloor> \<and>
   read_int (str_int (py_int angle)) = py_int angle \<and>
   channel (send_angle_to_arduino (379 / 10) s) = channel s @ [''A37'' @ [CHR 0x0A]]"
proof -
  have t: "py_int (379 / 10) = 37" by (simp add: py_int_def)
  have d: "str_int 37 = ''37''" by code_simp
  show ?thesis
    by (simp add: send_angle_to_arduino_def ser_write_def py_int_trunc read_int_str_int t d)
qed

section \<open>Properties of the control loop\<close>

subsection \<open>The steps, case by case\<close>

lemma drive_command_facts:
  "c \<in> set drive_commands \<Longrightarrow> c \<noteq> ''q'' \<and> c \<noteq> ''p'' \<and> \<not> angle_frame c \<and> c \<noteq> []"
  by (auto simp: drive_commands_def angle_frame_def)

lemma handle_key_line_cases:
  "handle_key_line line s =
     (if lower (strip line) = ''q'' then s\<lparr>key_input_flag := True, command := ''q'', listening := False\<rparr>
      else if lower (strip line) \<in> set drive_commands then s\<lparr>key_input_flag := True, command := lower (strip line)\<rparr>
      else if lower (strip line) = ''p'' then s\<lparr>paused := \<not> paused s, key_input_flag := True, channel := channel s @ [''p'']\<rparr>
      else s)"
  by (simp add: handle_key_line_def Let_def send_pause_resume_to_arduino_def ser_write_def)

lemma poll_command_cases:
  "poll_command s =
     (if \<not> key_input_flag s then (Continue, s)
      else if command s = ''q'' then (Break, s)
      else if command s = ''p'' then (Continue, s\<lparr>key_input_flag := False\<rparr>)
      else (Continue, s\<lparr>channel := channel s @ [command s], key_input_flag := False\<rparr>))"
  by (simp add: poll_command_def Let_def ser_write_def)

lemma poll_paused: "paused (snd (poll_command s)) = paused s"
  by (simp add: poll_command_cases)

lemma poll_listening: "listening (snd (poll_command s)) = listening s"
  by (simp add: poll_command_cases)

lemma main_iter_cases:
  "main_iter lines window_q s =
     (case poll_command s of
        (Break, s1) \<Rightarrow> (Break, s1)
      | (Continue, s1) \<Rightarrow>
          if paused s then (Continue, s1)
          else (if window_q then Break else Continue,
                s1\<lparr>channel := channel s1 @ [CHR ''A'' # str_int (py_int (calculate_angle lines)) @ [CHR 0x0A]]\<rparr>))"
proof -
  have "paused (snd (poll_command s)) = paused s" by (rule poll_paused)
  then show ?thesis
    by (cases "poll_command s")
      (auto simp: main_iter_def Let_def send_angle_to_arduino_def ser_write_def split: flow.splits)
qed

lemma main_iter_paused: "paused s \<Longrightarrow> main_iter lines window_q s = poll_command s"
  by (cases "poll_command s") (auto simp: main_iter_cases split: flow.splits)

lemma main_iter_paused_same: "paused (snd (main_iter lines window_q s)) = paused s"
  using poll_paused[of s]
  by (cases "poll_command s") (auto simp: main_iter_cases split: flow.splits)

lemma main_iter_listening: "listening (snd (main_iter lines window_q s)) = listening s"
  using poll_listening[of s]
  by (cases "poll_command s") (auto simp: main_iter_cases split: flow.splits)

lemma key_not_toggle_paused:
  "lower (strip line) \<noteq> ''p'' \<Longrightarrow> paused (handle_key_line line s) = paused s"
  by (simp add: handle_key_line_cases)

lemma is_toggle_simps:
  "is_toggle (Key line) = (lower (strip line) = ''p'')"
  "is_toggle (Iter lines window_q) = False"
  "is_toggle Interrupt = False"
  by (simp_all add: is_toggle_def)

lemma is_quit_simps:
  "is_quit (Key line) = (lower (strip line) = ''q'')"
  "is_quit (Iter lines window_q) = False"
  "is_quit Interrupt = False"
  by (simp_all add: is_quit_def)

lemma toggles_applied_simps:
  "toggles_applied [] = 0"
  "toggles_applied (Key line # evs) =
     (if lower (strip line) = ''q'' then 0
      else if lower (strip line) = ''p'' then Suc (toggles_applied evs)
      else toggles_applied evs)"
  "toggles_applied (Iter lines window_q # evs) = toggles_applied evs"
  by (simp_all add: toggles_applied_def is_toggle_simps is_quit_simps)

lemma new_writes_append: "channel s' = channel s @ ws \<Longrightarrow> new_writes s s' = ws"
  by (simp add: new_writes_def)

text \<open>Some terminal lines, as the listener reads them after \<^verbatim>\<open>strip().lower()\<close>.\<close>

lemma input_p: "lower (strip ''p'') = ''p''" 
  by code_simp

lemma input_w: "lower (strip ''w'') = ''w''" 
  by code_simp

lemma input_d: "lower (strip ''d'') = ''d''" by code_simp

lemma input_upper_q: "lower (strip ''Q'') = ''q''" 
  by code_simp

lemma input_spaced_upper_p: "lower (strip '' P'') = ''p''" by code_simp

lemma input_q: "lower (strip ''q'') = ''q''" by code_simp

lemma str_int_0: "str_int 0 = ''0''" by code_simp

subsection \<open>The mode\<close>

lemma dead_listener_paused:
  "\<not> listening s0 \<Longrightarrow> main_loop evs s0 = (None, s) \<Longrightarrow> paused s = paused s0"
proof (induction evs s0 rule: main_loop.induct)
  case (3 lines window_q evs s0)
  obtain f s1 where m: "main_iter lines window_q s0 = (f, s1)" by (cases "main_iter lines window_q s0")
  with "3.prems"(2) have f: "f = Continue" and c: "main_loop evs s1 = (None, s)"
    by (auto split: flow.splits)
  have "\<not> listening s1" using main_iter_listening[of lines window_q s0] m "3.prems"(1) by simp
  from "3.IH"[OF m[symmetric] f this c] have "paused s = paused s1" .
  then show ?case using main_iter_paused_same[of lines window_q s0] m by simp
qed simp_all

lemma paused_after_schedule:
  "listening s0 \<Longrightarrow> main_loop evs s0 = (None, s) \<Longrightarrow>
     paused s = (paused s0 \<noteq> odd (toggles_applied evs))"
proof (induction evs s0 rule: main_loop.induct)
  case (1 s0)
  then show ?case by (simp add: toggles_applied_simps)
next
  case (2 line evs s0)
  let ?s1 = "handle_key_line line s0"
  have c: "main_loop evs ?s1 = (None, s)" using "2.prems" by simp
  show ?case
  proof (cases "lower (strip line) = ''q''")
    case True
    then have "\<not> listening ?s1" "paused ?s1 = paused s0" by (simp_all add: handle_key_line_cases)
    then show ?thesis using dead_listener_paused[OF _ c] True by (simp add: toggles_applied_simps)
  next
    case False
    then have l: "listening ?s1" using "2.prems"(1) by (simp add: handle_key_line_cases)
    from "2.IH" l c "2.prems"(1)
    have ih: "paused s = (paused ?s1 \<noteq> odd (toggles_applied evs))" by simp
    show ?thesis
    proof (cases "lower (strip line) = ''p''")
      case True
      then have "paused ?s1 = (\<not> paused s0)"
        using drive_command_facts[of "''p''"] by (auto simp: handle_key_line_cases)
      then show ?thesis using ih True False by (auto simp: toggles_applied_simps)
    next
      case np: False
      then have "paused ?s1 = paused s0" by (rule key_not_toggle_paused)
      then show ?thesis using ih np False by (simp add: toggles_applied_simps)
    qed
  qed
next
  case (3 lines window_q evs s0)
  obtain f s1 where m: "main_iter lines window_q s0 = (f, s1)" by (cases "main_iter lines window_q s0")
  with "3.prems"(2) have f: "f = Continue" and c: "main_loop evs s1 = (None, s)"
    by (auto split: flow.splits)
  have l: "listening s1" using main_iter_listening[of lines window_q s0] m "3.prems"(1) by simp
  from "3.IH"[OF m[symmetric] f l c] have "paused s = (paused s1 \<noteq> odd (toggles_applied evs))" .
  then show ?case using main_iter_paused_same[of lines window_q s0] m
    by (simp add: toggles_applied_simps)
next
  case (4 evs s0)
  then show ?case by simp
qed

lemma toggle_line_flips: "paused (handle_key_line ''p'' s) = (\<not> paused s)"
  by (simp add: handle_key_line_cases input_p drive_commands_def)

lemma toggle_line_listening: "listening (handle_key_line ''p'' s) = listening s"
  by (simp add: handle_key_line_cases input_p drive_commands_def)

lemma toggle_lines_flip:
  "listening s \<Longrightarrow> paused (handle_key_input (replicate n ''p'') s) = (paused s \<noteq> odd n)"
  by (induction n arbitrary: s) (auto simp: toggle_line_flips toggle_line_listening Let_def)

text \<open>
  Claim C2. From the initial state, where \<^verbatim>\<open>paused\<close> is false, the listener run on
  \<open>n\<close> toggle lines leaves \<^verbatim>\<open>paused\<close> true exactly when \<open>n\<close> is odd. More generally, after any schedule that the
  loop survives, \<^verbatim>\<open>paused\<close> is the parity of the toggle lines that reached the
  listener. A line that is not the toggle leaves \<^verbatim>\<open>paused\<close> as it is, and so does
  an iteration of the main loop.
\<close>

theorem toggle_parity:
  "paused (handle_key_input (replicate n ''p'') initial_state) = odd n \<and>
   (main_loop evs initial_state = (None, s) \<longrightarrow> paused s = odd (toggles_applied evs)) \<and>
   (lower (strip line) \<noteq> ''p'' \<longrightarrow> paused (handle_key_line line s0) = paused s0) \<and>
   paused (snd (main_iter lines window_q s0)) = paused s0"
proof (intro conjI impI)
  have "listening initial_state" "\<not> paused initial_state" by (simp_all add: initial_state_def)
  then show "paused (handle_key_input (replicate n ''p'') initial_state) = odd n"
    by (simp add: toggle_lines_flip)
next
  assume "main_loop evs initial_state = (None, s)"
  then have "paused s = (paused initial_state \<noteq> odd (toggles_applied evs))"
    by (intro paused_after_schedule) (simp_all add: initial_state_def)
  then show "paused s = odd (toggles_applied evs)" by (simp add: initial_state_def)
next
  assume "lower (strip line) \<noteq> ''p''"
  then show "paused (handle_key_line line s0) = paused s0" by (rule key_not_toggle_paused)
next
  show "paused (snd (main_iter lines window_q s0)) = paused s0" by (rule main_iter_paused_same)
qed

theorem toggle_parity_witness:
  "main_loop [Key ''p'', Iter None False, Key ''w'', Key '' P'', Key ''p''] initial_state =
     (None, initial_state\<lparr>paused := True, key_input_flag := True, command := ''w'',
        channel := [''p'', [], ''p'', ''p'']\<rparr>) \<and>
   toggles_applied [Key ''p'', Iter None False, Key ''w'', Key '' P'', Key ''p''] = 3 \<and>
   lower (strip ''w'') \<noteq> ''p'' \<and>
   paused (handle_key_line ''w'' initial_state) = paused initial_state"
proof -
  let ?evs = "[Key ''p'', Iter None False, Key ''w'', Key '' P'', Key ''p'']"
  let ?s = "initial_state\<lparr>paused := True, key_input_flag := True, command := ''w'',
        channel := [''p'', [], ''p'', ''p'']\<rparr>"
  have h1: "main_loop ?evs initial_state = (None, ?s)"
    by (simp add: handle_key_line_cases input_p input_w input_spaced_upper_p initial_state_def drive_commands_def
        main_iter_cases poll_command_cases)
  have h2: "lower (strip ''w'') \<noteq> ''p''" by (simp add: input_w)
  have t: "toggles_applied ?evs = 3"
    by (simp add: toggles_applied_simps input_p input_w input_spaced_upper_p)
  from toggle_parity [of 0 ?evs ?s "''w''" initial_state None False] h1 h2 t
  show ?thesis by simp
qed

subsection \<open>The pending command\<close>

text \<open>
  Claim C3. The claim says that of two commands deposited before a poll only the second
  is observable. The quit and drive branches of the listener store the line in
  \<^verbatim>\<open>command\<close>; the toggle branch raises \<^verbatim>\<open>key_input_flag\<close> and stores nothing, although the
  main loop has a branch for \<^verbatim>\<open>command == 'p'\<close>. With the lines \<open>w\<close> and \<open>p\<close> typed before
  an iteration, that iteration finds the first command still in the slot and writes it.
\<close>

theorem stale_slot_after_toggle:
  "main_loop [Key ''w'', Key ''p'', Iter None False] initial_state =
     (None, \<lparr>key_input_flag = False, command = ''w'', paused = True, channel = [''p'', ''w''],
             listening = True, picam2_stops = 0, picam2_closes = 0, ser_closes = 0\<rparr>)"
  by (simp add: handle_key_line_cases input_p input_w initial_state_def drive_commands_def
      main_iter_cases poll_command_cases)

text \<open>
  Claim C10. The toggle line raises \<^verbatim>\<open>key_input_flag\<close> and leaves \<^verbatim>\<open>command\<close> as it was.
  When \<^verbatim>\<open>command\<close> holds a drive character \<open>c\<close>, whether or not it has been sent
  already, the listener writes \<open>p\<close> and the next poll of the main loop writes \<open>c\<close> again
  and clears the flag.
\<close>

theorem toggle_resends_stale_command:
  "command s = c \<Longrightarrow> c \<in> set drive_commands \<Longrightarrow> lower (strip line) = ''p'' \<Longrightarrow>
     key_input_flag (handle_key_line line s) \<and>
     command (handle_key_line line s) = c \<and>
     channel (handle_key_line line s) = channel s @ [''p''] \<and>
     poll_command (handle_key_line line s) =
       (Continue, (handle_key_line line s)\<lparr>channel := channel s @ [''p'', c], key_input_flag := False\<rparr>)"
  using drive_command_facts[of c] drive_command_facts[of "''p''"]
  by (auto simp: handle_key_line_cases poll_command_cases)

theorem toggle_resends_stale_command_witness:
  "main_loop [Key ''d'', Iter None False] initial_state =
     (None, initial_state\<lparr>command := ''d'', channel := [''d'', ''A0'' @ [CHR 0x0A]]\<rparr>) \<and>
   ''d'' \<in> set drive_commands \<and>
   lower (strip '' P'') = ''p'' \<and>
   poll_command (handle_key_line '' P''
       (initial_state\<lparr>command := ''d'', channel := [''d'', ''A0'' @ [CHR 0x0A]]\<rparr>)) =
     (Continue, initial_state\<lparr>command := ''d'', paused := True,
        channel := [''d'', ''A0'' @ [CHR 0x0A], ''p'', ''d'']\<rparr>)"
proof -
  let ?s = "initial_state\<lparr>command := ''d'', channel := [''d'', ''A0'' @ [CHR 0x0A]]\<rparr>"
  have h1: "main_loop [Key ''d'', Iter None False] initial_state = (None, ?s)"
    by (simp add: handle_key_line_cases input_d initial_state_def drive_commands_def
        main_iter_cases poll_command_cases calculate_angle_def py_int_def str_int_0)
  have h2: "command ?s = ''d''" by simp
  have h3: "''d'' \<in> set drive_commands" by (simp add: drive_commands_def)
  have h4: "lower (strip '' P'') = ''p''" by (rule input_spaced_upper_p)
  have k: "handle_key_line '' P'' ?s =
      initial_state\<lparr>command := ''d'', paused := True, key_input_flag := True,
        channel := [''d'', ''A0'' @ [CHR 0x0A], ''p'']\<rparr>"
    by (simp add: handle_key_line_cases input_spaced_upper_p initial_state_def drive_commands_def)
  from toggle_resends_stale_command [OF h2 h3 h4] h1 h3 h4 k
  show ?thesis by (simp add: initial_state_def)
qed

subsection \<open>Who sends the toggle\<close>

text \<open>
  Claim C4, as stated: the listener only records the toggle, and the main loop flips the
  mode and writes \<open>p\<close> when it consumes the pending command. In the code the listener
  does both at once: after the line \<open>p\<close> alone, with no iteration of the main loop, the
  channel holds \<open>p\<close> and the mode has changed.
\<close>

theorem listener_writes_toggle_counterexample:
  "channel (handle_key_line ''p'' initial_state) \<noteq> channel initial_state \<and>
   channel (handle_key_line ''p'' initial_state) = [''p''] \<and>
   paused (handle_key_line ''p'' initial_state) \<noteq> paused initial_state"
  by (simp add: handle_key_line_cases input_p initial_state_def drive_commands_def)

text \<open>
  Claim C4, amended: when a toggle line is entered, the listener itself flips
  \<^verbatim>\<open>paused\<close>, raises the flag and writes the single byte \<open>p\<close>; an iteration of the main
  loop never changes \<^verbatim>\<open>paused\<close> and never writes \<open>p\<close>.
\<close>

theorem toggle_done_by_listener:
  "(lower (strip line) = ''p'' \<longrightarrow>
      handle_key_line line s =
        s\<lparr>paused := \<not> paused s, key_input_flag := True, channel := channel s @ [''p'']\<rparr>) \<and>
   paused (snd (main_iter lines window_q s)) = paused s \<and>
   channel (snd (main_iter lines window_q s)) =
     channel s @ new_writes s (snd (main_iter lines window_q s)) \<and>
   ''p'' \<notin> set (new_writes s (snd (main_iter lines window_q s)))"
proof (intro conjI impI)
  assume "lower (strip line) = ''p''"
  then show "handle_key_line line s =
        s\<lparr>paused := \<not> paused s, key_input_flag := True, channel := channel s @ [''p'']\<rparr>"
    using drive_command_facts[of "''p''"] by (auto simp: handle_key_line_cases)
next
  show "paused (snd (main_iter lines window_q s)) = paused s" by (rule main_iter_paused_same)
next
  have "\<exists>ws. channel (snd (main_iter lines window_q s)) = channel s @ ws \<and> ''p'' \<notin> set ws"
    by (auto simp: main_iter_cases poll_command_cases)
  then obtain ws where w: "channel (snd (main_iter lines window_q s)) = channel s @ ws" "''p'' \<notin> set ws"
    by blast
  show "channel (snd (main_iter lines window_q s)) =
     channel s @ new_writes s (snd (main_iter lines window_q s))"
    using w by (simp add: new_writes_append[OF w(1)])
  show "''p'' \<notin> set (new_writes s (snd (main_iter lines window_q s)))"
    using w by (simp add: new_writes_append[OF w(1)])
qed

theorem toggle_done_by_listener_witness:
  "lower (strip ''P'') = ''p'' \<and>
   handle_key_line ''P'' initial_state =
     initial_state\<lparr>paused := True, key_input_flag := True, channel := [''p'']\<rparr> \<and>
   main_iter None False (initial_state\<lparr>paused := True, key_input_flag := True, channel := [''p'']\<rparr>) =
     (Continue, initial_state\<lparr>paused := True, channel := [''p'', []]\<rparr>) \<and>
   ''p'' \<notin> set (new_writes (initial_state\<lparr>paused := True, key_input_flag := True, channel := [''p'']\<rparr>)
       (initial_state\<lparr>paused := True, channel := [''p'', []]\<rparr>))"
proof -
  let ?s = "initial_state\<lparr>paused := True, key_input_flag := True, channel := [''p'']\<rparr>"
  have h: "lower (strip ''P'') = ''p''" by code_simp
  have m: "main_iter None False ?s = (Continue, initial_state\<lparr>paused := True, channel := [''p'', []]\<rparr>)"
    by (simp add: main_iter_cases poll_command_cases initial_state_def)
  from toggle_done_by_listener [of "''P''" initial_state]
    toggle_done_by_listener [of "''P''" ?s None False] h m
  show ?thesis by (simp add: initial_state_def)
qed

section \<open>Properties of the interleaved threads\<close>

subsection \<open>The sequential steps are schedules of the interleaved model\<close>

lemma key_line_refines:
  assumes "running t" "key_at t = At_input"
  shows "\<exists>n. run_ticks (replicate n (Key_tick line)) t =
           t\<lparr>globals := handle_key_line line (globals t),
             key_at := (if lower (strip line) = ''q'' then Left_loop else At_input)\<rparr>"
proof -
  consider (q) "lower (strip line) = ''q''"
    | (d) "lower (strip line) \<noteq> ''q''" "lower (strip line) \<in> set drive_commands"
    | (p) "lower (strip line) \<noteq> ''q''" "lower (strip line) \<notin> set drive_commands"
          "lower (strip line) = ''p''"
    | (o) "lower (strip line) \<noteq> ''q''" "lower (strip line) \<notin> set drive_commands"
          "lower (strip line) \<noteq> ''p''"
    by blast
  then show ?thesis
  proof cases
    case q
    with assms have "run_ticks (replicate 3 (Key_tick line)) t =
           t\<lparr>globals := handle_key_line line (globals t),
             key_at := (if lower (strip line) = ''q'' then Left_loop else At_input)\<rparr>"
      by (simp add: eval_nat_numeral key_step_def running_def handle_key_line_def Let_def)
    then show ?thesis by blast
  next
    case d
    with assms have "run_ticks (replicate 3 (Key_tick line)) t =
           t\<lparr>globals := handle_key_line line (globals t),
             key_at := (if lower (strip line) = ''q'' then Left_loop else At_input)\<rparr>"
      by (simp add: eval_nat_numeral key_step_def running_def handle_key_line_def Let_def)
    then show ?thesis by blast
  next
    case p
    with assms have "run_ticks (replicate 4 (Key_tick line)) t =
           t\<lparr>globals := handle_key_line line (globals t),
             key_at := (if lower (strip line) = ''q'' then Left_loop else At_input)\<rparr>"
      by (simp add: eval_nat_numeral key_step_def running_def handle_key_line_def Let_def)
    then show ?thesis by blast
  next
    case o
    with assms have "run_ticks (replicate 1 (Key_tick line)) t =
           t\<lparr>globals := handle_key_line line (globals t),
             key_at := (if lower (strip line) = ''q'' then Left_loop else At_input)\<rparr>"
      by (simp add: key_step_def running_def handle_key_line_def Let_def)
    then show ?thesis by blast
  qed
qed

lemma main_iter_refines:
  assumes "main_at t = At_flag_test"
  shows "\<exists>n. run_ticks (replicate n (Main_tick lines window_q)) t =
           t\<lparr>globals := snd (main_iter lines window_q (globals t)),
             main_at := (case fst (main_iter lines window_q (globals t)) of
                           Break \<Rightarrow> At_stop | Continue \<Rightarrow> At_flag_test)\<rparr>"
proof -
  let ?g = "globals t"
  let ?goal = "\<lambda>n. run_ticks (replicate n (Main_tick lines window_q)) t =
           t\<lparr>globals := snd (main_iter lines window_q (globals t)),
             main_at := (case fst (main_iter lines window_q (globals t)) of
                           Break \<Rightarrow> At_stop | Continue \<Rightarrow> At_flag_test)\<rparr>"
  note defs = eval_nat_numeral main_step_def main_iter_def poll_command_def Let_def
    ser_write_def send_angle_to_arduino_def
  consider (idle_paused) "\<not> key_input_flag ?g" "paused ?g"
    | (idle_drive) "\<not> key_input_flag ?g" "\<not> paused ?g"
    | (quit) "key_input_flag ?g" "command ?g = ''q''"
    | (tog_paused) "key_input_flag ?g" "command ?g = ''p''" "paused ?g"
    | (tog_drive) "key_input_flag ?g" "command ?g = ''p''" "\<not> paused ?g"
    | (cmd_paused) "key_input_flag ?g" "command ?g \<noteq> ''q''" "command ?g \<noteq> ''p''" "paused ?g"
    | (cmd_drive) "key_input_flag ?g" "command ?g \<noteq> ''q''" "command ?g \<noteq> ''p''" "\<not> paused ?g"
    by blast
  then show ?thesis
  proof cases
    case idle_paused
    with assms have "?goal 2" by (simp add: defs)
    then show ?thesis by blast
  next
    case idle_drive
    with assms have "?goal 5" by (simp add: defs)
    then show ?thesis by blast
  next
    case quit
    with assms have "?goal 2" by (simp add: defs)
    then show ?thesis by blast
  next
    case tog_paused
    with assms have "?goal 5" by (simp add: defs)
    then show ?thesis by blast
  next
    case tog_drive
    with assms have "?goal 8" by (simp add: defs)
    then show ?thesis by blast
  next
    case cmd_paused
    with assms have "?goal 6" by (simp add: defs)
    then show ?thesis by blast
  next
    case cmd_drive
    with assms have "?goal 9" by (simp add: defs)
    then show ?thesis by blast
  qed
qed

subsection \<open>The pause test and the angle write\<close>

text \<open>
  Claim C1. The claim says that no angle frame is written while the mode is paused. The
  main thread tests \<^verbatim>\<open>paused\<close> once, at line 206, and writes the angle at line 234; the
  listener can handle a toggle line in between. In the schedule below the camera and
  the listener are started, the main thread finds no pending command and passes the
  pause test, the listener then handles the line \<open>p\<close> completely (the mode is now paused
  and \<open>p\<close> is on the channel), and the main thread captures, computes and writes: the
  channel ends with an angle frame written while \<^verbatim>\<open>paused\<close> is true.
\<close>

theorem angle_sent_while_paused:
  "run_ticks
     [Main_tick None False, Main_tick None False, Main_tick None False,
      Main_tick None False, Main_tick None False,
      Key_tick ''p'', Key_tick [], Key_tick [], Key_tick [],
      Main_tick None False, Main_tick None False] sys_initial =
   \<lparr>globals =
      \<lparr>key_input_flag = True, command = [], paused = True,
       channel = [''p'', ''A0'' @ [CHR 0x0A]], listening = True,
       picam2_stops = 0, picam2_closes = 0, ser_closes = 0\<rparr>,
    main_at = At_waitkey, key_at = At_input, picam2_bound = True\<rparr> \<and>
   angle_frame (''A0'' @ [CHR 0x0A])"
  by (simp add: main_step_def key_step_def running_def sys_initial_def initial_state_def
      Let_def drive_commands_def ser_write_def send_angle_to_arduino_def
      send_pause_resume_to_arduino_def calculate_angle_def py_int_def str_int_0 input_p
      angle_frame_def)

subsection \<open>Leaving the loop\<close>

lemma quit_lost_step: "quit_lost t \<Longrightarrow> k \<noteq> Sigint \<Longrightarrow> quit_lost (tick_step k t)"
  by (cases k) (auto simp: quit_lost_def main_step_def key_step_def Let_def)

lemma quit_lost_forever:
  "quit_lost t \<Longrightarrow> Sigint \<notin> set ks \<Longrightarrow> quit_lost (run_ticks ks t)"
proof (induction ks arbitrary: t)
  case Nil
  then show ?case by simp
next
  case (Cons k ks)
  then have "quit_lost (tick_step k t)" by (intro quit_lost_step) auto
  with Cons show ?case by simp
qed

text \<open>
  Claim C9. The claim says that quit ends the loop from either mode and that every exit
  releases the camera and the port once. Two schedules on which the code does not.
  First, the interrupt arrives while \<^verbatim>\<open>picam2 = Picamera2()\<close> runs: the \<^verbatim>\<open>finally\<close> block
  starts with \<^verbatim>\<open>picam2.stop()\<close> on an unbound name, raises \<^verbatim>\<open>NameError\<close>, and
  \<^verbatim>\<open>ser.close()\<close> is never reached. Second, in paused mode a drive line \<open>w\<close> is pending;
  the main thread tests the flag and writes \<open>w\<close>, the listener then handles the line
  \<open>q\<close> and leaves its loop, and the main thread goes on to clear the flag: the quit
  request is in \<^verbatim>\<open>command\<close> with the flag down and nobody left to raise it, and the loop
  keeps running with nothing released.
\<close>

theorem exit_paths_without_release:
  "run_ticks [Sigint, Main_tick None False] sys_initial =
   \<lparr>globals =
      \<lparr>key_input_flag = False, command = [], paused = False, channel = [], listening = False,
       picam2_stops = 0, picam2_closes = 0, ser_closes = 0\<rparr>,
    main_at = Name_error, key_at = Not_started, picam2_bound = False\<rparr> \<and>
   run_ticks
     [Main_tick None False, Main_tick None False, Main_tick None False,
      Key_tick ''p'', Key_tick [], Key_tick [], Key_tick [],
      Key_tick ''w'', Key_tick [], Key_tick [],
      Main_tick None False, Main_tick None False, Main_tick None False, Main_tick None False,
      Key_tick ''q'', Key_tick [], Key_tick [],
      Main_tick None False, Main_tick None False] sys_initial =
   \<lparr>globals =
      \<lparr>key_input_flag = False, command = ''q'', paused = True, channel = [''p'', ''w''],
       listening = False, picam2_stops = 0, picam2_closes = 0, ser_closes = 0\<rparr>,
    main_at = At_flag_test, key_at = Left_loop, picam2_bound = True\<rparr>"
  by (simp add: main_step_def key_step_def interrupt_def running_def in_finally_def
      sys_initial_def initial_state_def Let_def drive_commands_def ser_write_def
      send_pause_resume_to_arduino_def input_p input_w input_q)

end
